theory Spec2Isabelle
  imports Main "HOL-Library.FSet" "HOL-Library.Word" "HOL-Library.AList"
begin

section \<open>Frame clock (\<open>next_frame_n\<close>, \<open>periodic_frames\<close>)\<close>

text \<open>
  \<^verbatim>\<open>frame_n_bytes = 2\<close> and \<^verbatim>\<open>n_of_unique_frames = (2**8) ** frame_n_bytes\<close>.
  Python integers are unbounded, and Python's \<^verbatim>\<open>%\<close> with a positive divisor
  is the floor remainder, as \<open>mod\<close> on \<open>int\<close> is.
\<close>

definition frame_n_bytes :: nat where
  "frame_n_bytes = 2"

definition n_of_unique_frames :: int where
  "n_of_unique_frames = (2 ^ 8) ^ frame_n_bytes"

definition next_frame_n :: "int \<Rightarrow> int" where
  "next_frame_n frame_n = (frame_n + 1) mod n_of_unique_frames"

text \<open>
  \<^verbatim>\<open>periodic_frames\<close> starts with \<^verbatim>\<open>frame_n = 0\<close> and applies
  \<^verbatim>\<open>next_frame_n\<close> once after each yield. \<open>periodic_frames k\<close> is the index
  yielded at tick \<open>k\<close> (the wall-clock half of the generator is not modelled).
\<close>

primrec periodic_frames :: "nat \<Rightarrow> int" where
  "periodic_frames 0 = 0"
| "periodic_frames (Suc k) = next_frame_n (periodic_frames k)"

section \<open>Exceptions\<close>

text \<open>The exceptions the modelled code can raise, as values.\<close>

datatype error =
    Invalid_json
  | Not_a_mapping
  | Missing_value string
  | Wrong_type string
  | Value_error
  | Key_error
  | Negotiation_error

section \<open>Frame generator (\<open>gen_frame\<close>, \<open>frame_from_arrays\<close>)\<close>

text \<open>
  A \<^verbatim>\<open>float64\<close> is modelled by its 64 bits. The floating-point operations of Python
  and numpy that \<^verbatim>\<open>gen_frame\<close> uses are taken from outside, with the byte order of the
  machine (\<^verbatim>\<open>tobytes\<close> writes native order): the conversion of an integer, the true
  division of two integers, \<^verbatim>\<open>%\<close>, \<^verbatim>\<open>+\<close>, \<^verbatim>\<open>-\<close>, \<^verbatim>\<open>*\<close>, \<^verbatim>\<open>sin\<close>, the constants
  \<^verbatim>\<open>np.pi\<close> and \<^verbatim>\<open>0.5\<close>, and the sample number \<open>k\<close> of
  \<^verbatim>\<open>np.linspace(start, stop, num)\<close>.
\<close>

type_synonym byte = "8 word"
type_synonym float64 = "64 word"

record fp_env =
  little_endian :: bool
  float_of_int :: "int \<Rightarrow> float64"
  int_truediv :: "int \<Rightarrow> int \<Rightarrow> float64"
  fmod :: "float64 \<Rightarrow> float64 \<Rightarrow> float64"
  fadd :: "float64 \<Rightarrow> float64 \<Rightarrow> float64"
  fsub :: "float64 \<Rightarrow> float64 \<Rightarrow> float64"
  fmul :: "float64 \<Rightarrow> float64 \<Rightarrow> float64"
  fsin :: "float64 \<Rightarrow> float64"
  np_pi :: float64
  half :: float64
  linspace_at :: "int \<Rightarrow> int \<Rightarrow> nat \<Rightarrow> nat \<Rightarrow> float64"

text \<open>The bytes of an \<open>n\<close>-byte value, least significant first, and in native order.\<close>

definition le_bytes :: "nat \<Rightarrow> 'a::len word \<Rightarrow> byte list" where
  "le_bytes n w = map (\<lambda>k. ucast (drop_bit (8 * k) w)) [0..<n]"

definition tobytes :: "fp_env \<Rightarrow> nat \<Rightarrow> 'a::len word \<Rightarrow> byte list" where
  "tobytes fp n w = (if little_endian fp then le_bytes n w else rev (le_bytes n w))"

text \<open>Reading two bytes in native order as an unsigned number.\<close>

definition u16_of_bytes :: "fp_env \<Rightarrow> byte list \<Rightarrow> nat" where
  "u16_of_bytes fp bs =
     (if little_endian fp then unat (bs ! 0) + 256 * unat (bs ! 1)
      else unat (bs ! 1) + 256 * unat (bs ! 0))"

definition np_linspace :: "fp_env \<Rightarrow> int \<Rightarrow> int \<Rightarrow> nat \<Rightarrow> float64 list" where
  "np_linspace fp start stop num = map (linspace_at fp start stop num) [0..<num]"

definition np_diff :: "fp_env \<Rightarrow> float64 list \<Rightarrow> float64 list" where
  "np_diff fp a = map (\<lambda>k. fsub fp (a ! Suc k) (a ! k)) [0..<length a - 1]"

text \<open>
  The locals of \<^verbatim>\<open>gen_frame\<close>: \<^verbatim>\<open>t\<close>, \<^verbatim>\<open>amplitude\<close>, \<^verbatim>\<open>y\<close> and the final \<^verbatim>\<open>dt\<close>
  (\<^verbatim>\<open>np.diff(t)\<close> with its last element appended once more; \<^verbatim>\<open>t\<close> has 1000
  elements, so \<^verbatim>\<open>dt[-1]\<close> exists).
\<close>

definition gen_t :: "fp_env \<Rightarrow> float64 list" where
  "gen_t fp = np_linspace fp (- 1) 1 1000"

definition amplitude :: "fp_env \<Rightarrow> int \<Rightarrow> float64" where
  "amplitude fp frame_n =
     fadd fp (fmod fp (int_truediv fp frame_n 64) (float_of_int fp 1)) (half fp)"

definition gen_y :: "fp_env \<Rightarrow> int \<Rightarrow> float64 list" where
  "gen_y fp frame_n =
     map (\<lambda>x. fmul fp (amplitude fp frame_n)
            (fsin fp (fmul fp (fmul fp (fmul fp x (float_of_int fp 2)) (np_pi fp))
               (float_of_int fp 10))))
       (gen_t fp)"

definition gen_dt :: "fp_env \<Rightarrow> float64 list" where
  "gen_dt fp = (let dt = np_diff fp (gen_t fp) in dt @ [last dt])"

text \<open>
  \<^verbatim>\<open>frame_from_arrays\<close>: \<^verbatim>\<open>astype("H")\<close> keeps the low 16 bits of the index (an index
  in the range of \<^verbatim>\<open>int64\<close>); \<^verbatim>\<open>np.transpose([dt, y])\<close> is the array of the rows
  \<^verbatim>\<open>[dt[k], y[k]]\<close> and needs two arrays of one length; \<^verbatim>\<open>tobytes\<close> writes the rows
  one after the other.
\<close>

definition frame_from_arrays ::
  "fp_env \<Rightarrow> float64 list \<Rightarrow> float64 list \<Rightarrow> int \<Rightarrow> error + byte list" where
  "frame_from_arrays fp dt y frame_n =
     (if length dt \<noteq> length y then Inl Value_error
      else Inr (tobytes fp 2 (word_of_int frame_n :: 16 word) @
                concat (map (\<lambda>(d, s). tobytes fp 8 d @ tobytes fp 8 s) (zip dt y))))"

definition gen_frame :: "fp_env \<Rightarrow> int \<Rightarrow> error + byte list" where
  "gen_frame fp frame_n = frame_from_arrays fp (gen_dt fp) (gen_y fp frame_n) frame_n"

text \<open>For concrete runs: a little-endian machine and placeholder arithmetic on the bits.\<close>

definition test_fp :: fp_env where
  "test_fp =
     \<lparr>little_endian = True, float_of_int = word_of_int, int_truediv = (\<lambda>a b. word_of_int a),
      fmod = (\<lambda>a b. a), fadd = (+), fsub = (-), fmul = (*), fsin = (\<lambda>a. a),
      np_pi = 3, half = 0, linspace_at = (\<lambda>start stop num k. word_of_nat k)\<rparr>"

section \<open>Channel registry and broadcaster (\<open>channel_broadcast\<close>)\<close>

text \<open>
  A channel is an \<^verbatim>\<open>RTCDataChannel\<close> object; the Python sets hold such objects
  by identity, so a channel is modelled by its identity. Python sets are finite.
\<close>

type_synonym chan = nat

datatype ready_state = Connecting | Open | Closing | Closed

text \<open>
  The closures \<^verbatim>\<open>closing\<close> and \<^verbatim>\<open>closed\<close> of \<^verbatim>\<open>add_channel\<close> have the same
  body, \<^verbatim>\<open>to_be_removed.add(channel)\<close>, with \<^verbatim>\<open>channel\<close> captured.
\<close>

datatype handler = To_be_removed_add chan

text \<open>
  The shared state of \<^verbatim>\<open>channel_broadcast\<close>: the two sets, the listener tables of
  the channels' event emitters, the local \<^verbatim>\<open>frame_n\<close> of the clock, and two logs of the
  calls made to the collaborators: the arguments of the \<^verbatim>\<open>gen_frame\<close> calls, and for
  each \<^verbatim>\<open>channel.send(frame)\<close> call the channel, the index of the frame and whether
  the call returned normally.
\<close>

record bstate =
  channels :: "chan fset"
  to_be_removed :: "chan fset"
  listeners :: "chan \<Rightarrow> string \<Rightarrow> handler list"
  frame_n :: int
  generated :: "int list"
  attempts :: "(chan \<times> int \<times> bool) list"

definition init_state :: bstate where
  "init_state = \<lparr>channels = {||}, to_be_removed = {||}, listeners = (\<lambda>_ _. []),
     frame_n = 0, generated = [], attempts = []\<rparr>"

text \<open>\<^verbatim>\<open>@channel.on(event)\<close> appends the function to the listeners of that event.\<close>

definition on_event :: "chan \<Rightarrow> string \<Rightarrow> handler \<Rightarrow> bstate \<Rightarrow> bstate" where
  "on_event c ev h st =
     st\<lparr>listeners := (listeners st)(c := (listeners st c)(ev := listeners st c ev @ [h]))\<rparr>"

fun run_handler :: "bstate \<Rightarrow> handler \<Rightarrow> bstate" where
  "run_handler st (To_be_removed_add c) = st\<lparr>to_be_removed := finsert c (to_be_removed st)\<rparr>"

text \<open>The channel emitting an event: every listener registered for it runs, in order.\<close>

definition emit :: "chan \<Rightarrow> string \<Rightarrow> bstate \<Rightarrow> bstate" where
  "emit c ev st = foldl run_handler st (listeners st c ev)"

definition add_channel :: "chan \<Rightarrow> bstate \<Rightarrow> bstate" where
  "add_channel channel st =
     (let st1 = on_event channel ''closing'' (To_be_removed_add channel) st;
          st2 = on_event channel ''closedkfjsdk'' (To_be_removed_add channel) st1
      in st2\<lparr>channels := finsert channel (channels st2)\<rparr>)"

text \<open>
  What one pass of the loop body of \<^verbatim>\<open>send_frames\<close> gets from outside: the order in
  which the set iterator yields the channels, whether \<^verbatim>\<open>channel.send\<close> raises
  \<^verbatim>\<open>InvalidStateError\<close>, and the \<^verbatim>\<open>readyState\<close> read in the handler.
\<close>

record cycle_env =
  iter_order :: "chan list"
  send_raises :: "chan \<Rightarrow> bool"
  ready_state_of :: "chan \<Rightarrow> ready_state"

text \<open>Lines 179 and 180: the swap of the pending removals and the subtraction.\<close>

definition cycle_head :: "bstate \<Rightarrow> bstate" where
  "cycle_head st =
     (let removing = to_be_removed st;
          st1 = st\<lparr>to_be_removed := {||}\<rparr>
      in st1\<lparr>channels := channels st1 |-| removing\<rparr>)"

text \<open>
  Lines 179 to 183: after the subtraction the body does \<^verbatim>\<open>continue\<close> if the set is
  empty, and calls \<^verbatim>\<open>gen_frame\<close> otherwise. The flag says whether the delivery loop
  follows.
\<close>

definition cycle_prepare :: "bstate \<Rightarrow> bstate \<times> bool" where
  "cycle_prepare st =
     (let st1 = cycle_head st
      in if fcard (channels st1) \<le> 0 then (st1, False)
         else (st1\<lparr>generated := generated st1 @ [frame_n st1]\<rparr>, True))"

text \<open>Lines 186 to 195: the \<^verbatim>\<open>for\<close> loop, over the channels as the iterator yields them.\<close>

fun deliver :: "cycle_env \<Rightarrow> int \<Rightarrow> chan list \<Rightarrow> bstate \<Rightarrow> bstate" where
  "deliver env f [] st = st"
| "deliver env f (channel # rest) st =
     (if channel |\<in>| to_be_removed st then deliver env f rest st
      else if send_raises env channel then
        (let st1 = st\<lparr>attempts := attempts st @ [(channel, f, False)]\<rparr>
         in if ready_state_of env channel \<noteq> Open
            then deliver env f rest (st1\<lparr>to_be_removed := finsert channel (to_be_removed st1)\<rparr>)
            else deliver env f rest st1)
      else deliver env f rest (st\<lparr>attempts := attempts st @ [(channel, f, True)]\<rparr>))"

text \<open>
  One pass of \<^verbatim>\<open>async for frame_n, time_taken in periodic_frames(interval)\<close>: the
  body, then the generator resumes and advances \<^verbatim>\<open>frame_n\<close>.
\<close>

definition cycle_body :: "cycle_env \<Rightarrow> bstate \<Rightarrow> bstate" where
  "cycle_body env st =
     (case cycle_prepare st of
        (st1, False) \<Rightarrow> st1
      | (st1, True) \<Rightarrow> deliver env (frame_n st1) (iter_order env) st1)"

definition cycle :: "cycle_env \<Rightarrow> bstate \<Rightarrow> bstate" where
  "cycle env st = (let st1 = cycle_body env st in st1\<lparr>frame_n := next_frame_n (frame_n st1)\<rparr>)"

text \<open>
  What happens to the shared state over time: the signalling side adds a channel, a
  channel emits an event, the loop runs a cycle. In a well-formed history the iterator
  of each cycle yields exactly the channels of the set it iterates, each once.
\<close>

datatype event = Add chan | Emit chan string | Cycle cycle_env

fun step :: "bstate \<Rightarrow> event \<Rightarrow> bstate" where
  "step st (Add c) = add_channel c st"
| "step st (Emit c ev) = emit c ev st"
| "step st (Cycle env) = cycle env st"

definition run :: "event list \<Rightarrow> bstate \<Rightarrow> bstate" where
  "run evs st = foldl step st evs"

definition iter_ok :: "cycle_env \<Rightarrow> bstate \<Rightarrow> bool" where
  "iter_ok env st \<longleftrightarrow>
     distinct (iter_order env) \<and> set (iter_order env) = fset (channels (cycle_head st))"

fun wf_events :: "event list \<Rightarrow> bstate \<Rightarrow> bool" where
  "wf_events [] st = True"
| "wf_events (Cycle env # evs) st \<longleftrightarrow> iter_ok env st \<and> wf_events evs (cycle env st)"
| "wf_events (e # evs) st \<longleftrightarrow> wf_events evs (step st e)"

text \<open>The frame indices a channel was sent successfully, in order.\<close>

definition delivered :: "chan \<Rightarrow> bstate \<Rightarrow> int list" where
  "delivered c st = map (\<lambda>a. fst (snd a)) (filter (\<lambda>a. fst a = c \<and> snd (snd a)) (attempts st))"

text \<open>The send calls made on a channel, successful or not.\<close>

definition attempts_on :: "chan \<Rightarrow> bstate \<Rightarrow> (chan \<times> int \<times> bool) list" where
  "attempts_on c st = filter (\<lambda>a. fst a = c) (attempts st)"

text \<open>
  An environment for concrete runs: the iterator's order, and the channels whose
  \<^verbatim>\<open>send\<close> raises; those report the ready state \<^verbatim>\<open>closed\<close>, the others \<^verbatim>\<open>open\<close>.
\<close>

definition env_with :: "chan list \<Rightarrow> chan list \<Rightarrow> cycle_env" where
  "env_with order failing =
     \<lparr>iter_order = order, send_raises = (\<lambda>c. c \<in> set failing),
      ready_state_of = (\<lambda>c. if c \<in> set failing then Closed else Open)\<rparr>"

text \<open>
  Over a history: the channel is in the active set at every point of it; every
  \<^verbatim>\<open>send\<close> on the channel returns normally; the number of cycles.
\<close>

fun stays_active :: "chan \<Rightarrow> event list \<Rightarrow> bstate \<Rightarrow> bool" where
  "stays_active c [] st \<longleftrightarrow> c |\<in>| channels st"
| "stays_active c (e # evs) st \<longleftrightarrow> c |\<in>| channels st \<and> stays_active c evs (step st e)"

fun sends_succeed :: "chan \<Rightarrow> event list \<Rightarrow> bool" where
  "sends_succeed c [] \<longleftrightarrow> True"
| "sends_succeed c (Cycle env # evs) \<longleftrightarrow> \<not> send_raises env c \<and> sends_succeed c evs"
| "sends_succeed c (e # evs) \<longleftrightarrow> sends_succeed c evs"

fun cycles :: "event list \<Rightarrow> nat" where
  "cycles [] = 0"
| "cycles (Cycle env # evs) = Suc (cycles evs)"
| "cycles (e # evs) = cycles evs"

text \<open>
  \<^verbatim>\<open>send_frames\<close> runs in a thread of its own (\<^verbatim>\<open>start\<close>), and \<^verbatim>\<open>add_channel\<close> is
  called from the signalling side, so \<^verbatim>\<open>add_channel\<close> can run between two statements
  of the loop body. \<open>cycle_with_add c\<close> is the cycle in which \<^verbatim>\<open>add_channel(c)\<close> runs
  after lines 179 to 183 and before the \<^verbatim>\<open>for\<close> statement of line 186 creates its
  iterator: the loop iterates \<^verbatim>\<open>channels\<close> itself, the set \<^verbatim>\<open>add_channel\<close> inserts into.
\<close>

definition cycle_with_add :: "chan \<Rightarrow> cycle_env \<Rightarrow> bstate \<Rightarrow> bstate" where
  "cycle_with_add c env st =
     (let st2 = (case cycle_prepare st of
                   (st1, False) \<Rightarrow> add_channel c st1
                 | (st1, True) \<Rightarrow>
                     deliver env (frame_n st1) (iter_order env) (add_channel c st1))
      in st2\<lparr>frame_n := next_frame_n (frame_n st2)\<rparr>)"

section \<open>Connection manager (\<open>connection_handler\<close>)\<close>

text \<open>
  What \<^verbatim>\<open>await request.json()\<close> returns: a parsed JSON value (an object as the list
  of its members, numbers by their literal text).
\<close>

datatype json = JNull | JBool bool | JNum string | JStr string | JArr "json list"
  | JObj "(string \<times> json) list"

text \<open>The dataclass \<^verbatim>\<open>ConnectionInfo\<close>: \<^verbatim>\<open>sdp: str\<close>, \<^verbatim>\<open>type: str\<close>, \<^verbatim>\<open>id: str | None = None\<close>.\<close>

record ConnectionInfo =
  sdp :: string
  type' :: string
  id' :: "string option"

text \<open>
  \<^verbatim>\<open>dacite.from_dict(ConnectionInfo, data)\<close> with the default configuration: each field
  is looked up by name and type-checked; a missing field takes its default or, having none,
  raises; members the dataclass does not name are ignored.
\<close>

definition str_field :: "(string \<times> json) list \<Rightarrow> string \<Rightarrow> error + string" where
  "str_field data name =
     (case map_of data name of
        None \<Rightarrow> Inl (Missing_value name)
      | Some (JStr s) \<Rightarrow> Inr s
      | Some _ \<Rightarrow> Inl (Wrong_type name))"

definition opt_str_field :: "(string \<times> json) list \<Rightarrow> string \<Rightarrow> error + string option" where
  "opt_str_field data name =
     (case map_of data name of
        None \<Rightarrow> Inr None
      | Some JNull \<Rightarrow> Inr None
      | Some (JStr s) \<Rightarrow> Inr (Some s)
      | Some _ \<Rightarrow> Inl (Wrong_type name))"

fun from_dict :: "json \<Rightarrow> error + ConnectionInfo" where
  "from_dict (JObj data) =
     (case str_field data ''sdp'' of
        Inl e \<Rightarrow> Inl e
      | Inr s \<Rightarrow>
          (case str_field data ''type'' of
             Inl e \<Rightarrow> Inl e
           | Inr t \<Rightarrow>
               (case opt_str_field data ''id'' of
                  Inl e \<Rightarrow> Inl e
                | Inr i \<Rightarrow> Inr \<lparr>sdp = s, type' = t, id' = i\<rparr>)))"
| "from_dict _ = Inl Not_a_mapping"

text \<open>
  A session id is a \<^verbatim>\<open>uuid.UUID\<close>, a 128-bit number; a connection is an
  \<^verbatim>\<open>RTCPeerConnection\<close> object, modelled by its identity.
\<close>

type_synonym uuid = nat
type_synonym conn = nat

datatype conn_handler = On_constate uuid conn | On_datachannel conn

text \<open>
  The state of \<^verbatim>\<open>connection_handler\<close>: the dict \<^verbatim>\<open>connections\<close> in insertion order,
  the number of \<^verbatim>\<open>RTCPeerConnection\<close> objects created so far (the next object's
  identity), the observers registered on connections, and the log of the
  \<^verbatim>\<open>close()\<close> calls made on connections.
\<close>

record cm_state =
  connections :: "(uuid \<times> conn) list"
  next_conn :: conn
  conn_listeners :: "(conn \<times> string \<times> conn_handler) list"
  close_calls :: "conn list"

definition cm_init :: cm_state where
  "cm_init = \<lparr>connections = [], next_conn = 0, conn_listeners = [], close_calls = []\<rparr>"

text \<open>
  What one call of \<^verbatim>\<open>offer\<close> gets from outside: \<^verbatim>\<open>uuid.UUID(s)\<close> (\<open>None\<close> where it
  raises \<^verbatim>\<open>ValueError\<close>), the draw of \<^verbatim>\<open>uuid.uuid4()\<close>, and the transport library's
  negotiation (lines 77 to 80: \<^verbatim>\<open>as_offer\<close>, \<^verbatim>\<open>setRemoteDescription\<close>,
  \<^verbatim>\<open>createAnswer\<close>, \<^verbatim>\<open>setLocalDescription\<close>), which raises or leaves a local
  description, given as its \<^verbatim>\<open>sdp\<close> and \<^verbatim>\<open>type\<close>.
\<close>

record offer_env =
  uuid_of_string :: "string \<Rightarrow> uuid option"
  uuid4 :: uuid
  negotiate :: "conn \<Rightarrow> string \<Rightarrow> string \<Rightarrow> error + (string \<times> string)"

text \<open>The response: \<^verbatim>\<open>ConnectionInfo.from_offer(connection.localDescription, id)\<close>.\<close>

record response =
  r_sdp :: string
  r_type :: string
  r_id :: uuid

definition on_conn :: "conn \<Rightarrow> string \<Rightarrow> conn_handler \<Rightarrow> cm_state \<Rightarrow> cm_state" where
  "on_conn c ev h st = st\<lparr>conn_listeners := conn_listeners st @ [(c, ev, h)]\<rparr>"

definition handle_new_connection :: "conn \<Rightarrow> cm_state \<Rightarrow> cm_state" where
  "handle_new_connection c st = on_conn c ''datachannel'' (On_datachannel c) st"

text \<open>Lines 77 to 88, common to both branches.\<close>

definition answer ::
  "offer_env \<Rightarrow> ConnectionInfo \<Rightarrow> uuid \<Rightarrow> conn \<Rightarrow> cm_state \<Rightarrow> (error + response) \<times> cm_state" where
  "answer env conn_req i connection st =
     (case negotiate env connection (sdp conn_req) (type' conn_req) of
        Inl e \<Rightarrow> (Inl e, st)
      | Inr (s, t) \<Rightarrow> (Inr \<lparr>r_sdp = s, r_type = t, r_id = i\<rparr>, st))"

text \<open>
  \<^verbatim>\<open>offer\<close>. The body is \<open>None\<close> where \<^verbatim>\<open>request.json()\<close> raises. An exception leaves
  the state as it is at the raise, so the state is returned beside the result.
\<close>

definition offer :: "offer_env \<Rightarrow> json option \<Rightarrow> cm_state \<Rightarrow> (error + response) \<times> cm_state" where
  "offer env body st =
     (case body of
        None \<Rightarrow> (Inl Invalid_json, st)
      | Some data \<Rightarrow>
          (case from_dict data of
             Inl e \<Rightarrow> (Inl e, st)
           | Inr conn_req \<Rightarrow>
               (case id' conn_req of
                  Some s \<Rightarrow>
                    (case uuid_of_string env s of
                       None \<Rightarrow> (Inl Value_error, st)
                     | Some i \<Rightarrow>
                         (case map_of (connections st) i of
                            None \<Rightarrow> (Inl Key_error, st)
                          | Some connection \<Rightarrow> answer env conn_req i connection st))
                | None \<Rightarrow>
                    (let i = uuid4 env;
                         connection = next_conn st;
                         st1 = st\<lparr>next_conn := Suc (next_conn st)\<rparr>;
                         st2 = st1\<lparr>connections := AList.update i connection (connections st1)\<rparr>;
                         st3 = on_conn connection ''connectionstatechange''
                                 (On_constate i connection) st2;
                         st4 = handle_new_connection connection st3
                     in answer env conn_req i connection st4))))"

text \<open>
  \<^verbatim>\<open>on_shutdown\<close>: one \<^verbatim>\<open>close()\<close> per value of the dict, gathered, then
  \<^verbatim>\<open>connections.clear()\<close>.
\<close>

definition on_shutdown :: "cm_state \<Rightarrow> cm_state" where
  "on_shutdown st =
     (let st1 = st\<lparr>close_calls := close_calls st @ map snd (connections st)\<rparr>
      in st1\<lparr>connections := []\<rparr>)"

text \<open>The two kinds of offer of claim C5.\<close>

definition unparsable :: "json option \<Rightarrow> bool" where
  "unparsable body \<longleftrightarrow> (case body of None \<Rightarrow> True | Some data \<Rightarrow> isl (from_dict data))"

definition unknown_session :: "offer_env \<Rightarrow> json option \<Rightarrow> cm_state \<Rightarrow> bool" where
  "unknown_session env body st \<longleftrightarrow>
     (case body of
        None \<Rightarrow> False
      | Some data \<Rightarrow>
          (case from_dict data of
             Inl e \<Rightarrow> False
           | Inr conn_req \<Rightarrow>
               (case id' conn_req of
                  None \<Rightarrow> False
                | Some s \<Rightarrow>
                    (case uuid_of_string env s of
                       None \<Rightarrow> True
                     | Some i \<Rightarrow> map_of (connections st) i = None))))"

text \<open>For concrete runs: ids written in decimal digits, and a negotiation that succeeds.\<close>

definition test_offer_env :: "uuid \<Rightarrow> offer_env" where
  "test_offer_env fresh =
     \<lparr>uuid_of_string = (\<lambda>s. if s = ''7'' then Some 7 else if s = ''8'' then Some 8 else None),
      uuid4 = fresh,
      negotiate = (\<lambda>c s t. Inr (''answer-sdp'', ''answer''))\<rparr>"

definition test_offer_body :: json where
  "test_offer_body = JObj [(''sdp'', JStr ''v=0''), (''type'', JStr ''offer'')]"

section \<open>Theorems\<close>

lemma n_of_unique_frames_value: "n_of_unique_frames = 65536"
  by (simp add: n_of_unique_frames_def frame_n_bytes_def)

lemma periodic_frames_closed_form: "periodic_frames k = int k mod 65536"
proof (induction k)
  case 0
  show ?case by simp
next
  case (Suc k)
  have "periodic_frames (Suc k) = (int k mod 65536 + 1) mod 65536"
    by (simp add: Suc next_frame_n_def n_of_unique_frames_value)
  also have "\<dots> = (int k + 1) mod 65536"
    by (simp add: mod_add_left_eq)
  finally show ?case by (simp add: add.commute)
qed

text \<open>
  Claim C7. For every frame index \<open>i\<close> the next index is \<open>(i + 1) mod 65536\<close>, and
  the sequence of indices the clock yields repeats exactly after 65536 ticks.
\<close>

theorem frame_index_cycles:
  "next_frame_n i = (i + 1) mod 65536 \<and>
   (\<forall>k. periodic_frames (k + 65536) = periodic_frames k)"
proof
  show "next_frame_n i = (i + 1) mod 65536"
    by (simp add: next_frame_n_def n_of_unique_frames_value)
next
  show "\<forall>k. periodic_frames (k + 65536) = periodic_frames k"
  proof
    fix k :: nat
    have "int (k + 65536) mod 65536 = int k mod 65536"
      by simp
    then show "periodic_frames (k + 65536) = periodic_frames k"
      by (simp only: periodic_frames_closed_form)
  qed
qed

subsection \<open>The delivery loop\<close>

lemma deliver_channels [simp]: "channels (deliver env f cs st) = channels st"
  by (induction cs arbitrary: st) (simp_all add: Let_def)

lemma deliver_listeners [simp]: "listeners (deliver env f cs st) = listeners st"
  by (induction cs arbitrary: st) (simp_all add: Let_def)

lemma deliver_frame_n [simp]: "frame_n (deliver env f cs st) = frame_n st"
  by (induction cs arbitrary: st) (simp_all add: Let_def)

lemma deliver_generated [simp]: "generated (deliver env f cs st) = generated st"
  by (induction cs arbitrary: st) (simp_all add: Let_def)

lemma deliver_to_be_removed_mono: "x |\<in>| to_be_removed st \<Longrightarrow> x |\<in>| to_be_removed (deliver env f cs st)"
  by (induction cs arbitrary: st) (simp_all add: Let_def)

lemma deliver_to_be_removed_new:
  "x |\<in>| to_be_removed (deliver env f cs st) \<Longrightarrow>
   x |\<in>| to_be_removed st \<or> (x \<in> set cs \<and> send_raises env x \<and> ready_state_of env x \<noteq> Open)"
proof (induction cs arbitrary: st)
  case Nil
  then show ?case by simp
next
  case (Cons c cs)
  show ?case
  proof (cases "c |\<in>| to_be_removed st")
    case True
    then show ?thesis using Cons.IH [of st] Cons.prems by auto
  next
    case notin: False
    show ?thesis
    proof (cases "send_raises env c")
      case False
      then show ?thesis
        using notin Cons.IH [of "st\<lparr>attempts := attempts st @ [(c, f, True)]\<rparr>"] Cons.prems
        by auto
    next
      case raises: True
      show ?thesis
      proof (cases "ready_state_of env c = Open")
        case True
        then show ?thesis
          using notin raises Cons.IH [of "st\<lparr>attempts := attempts st @ [(c, f, False)]\<rparr>"] Cons.prems
          by (auto simp: Let_def)
      next
        case False
        then show ?thesis
          using notin raises
            Cons.IH [of "st\<lparr>attempts := attempts st @ [(c, f, False)],
              to_be_removed := finsert c (to_be_removed st)\<rparr>"] Cons.prems
          by (auto simp: Let_def)
      qed
    qed
  qed
qed

lemma deliver_skip:
  "c \<notin> set cs \<Longrightarrow> attempts_on c (deliver env f cs st) = attempts_on c st"
  by (induction cs arbitrary: st) (simp_all add: Let_def attempts_on_def)

lemma deliver_marks:
  "c \<in> set cs \<Longrightarrow> send_raises env c \<Longrightarrow> ready_state_of env c \<noteq> Open \<Longrightarrow>
   c |\<in>| to_be_removed (deliver env f cs st)"
proof (induction cs arbitrary: st)
  case Nil
  then show ?case by simp
next
  case (Cons d cs)
  show ?case
  proof (cases "d = c")
    case True
    then show ?thesis
      using Cons.prems by (simp add: Let_def deliver_to_be_removed_mono)
  next
    case False
    then have "c \<in> set cs" using Cons.prems by simp
    then show ?thesis
      using Cons.IH Cons.prems by (simp add: Let_def)
  qed
qed

lemma attempts_on_append:
  "attempts_on c (st\<lparr>attempts := attempts st @ [a]\<rparr>) =
     attempts_on c st @ (if fst a = c then [a] else [])"
  by (simp add: attempts_on_def)

lemma attempts_on_to_be_removed [simp]:
  "attempts_on c (st\<lparr>to_be_removed := X\<rparr>) = attempts_on c st"
  by (simp add: attempts_on_def)

lemma deliver_once:
  "distinct cs \<Longrightarrow> c \<in> set cs \<Longrightarrow> c |\<notin>| to_be_removed st \<Longrightarrow>
   attempts_on c (deliver env f cs st) = attempts_on c st @ [(c, f, \<not> send_raises env c)]"
proof (induction cs arbitrary: st)
  case Nil
  then show ?case by simp
next
  case (Cons d cs)
  show ?case
  proof (cases "d = c")
    case True
    then have "c \<notin> set cs" using Cons.prems by simp
    then show ?thesis
      using True Cons.prems(3) by (simp add: Let_def deliver_skip attempts_on_append)
  next
    case False
    then have rest: "c \<in> set cs" "distinct cs" using Cons.prems by simp_all
    have ih: "c |\<notin>| to_be_removed s \<Longrightarrow>
        attempts_on c (deliver env f cs s) = attempts_on c s @ [(c, f, \<not> send_raises env c)]" for s
      using Cons.IH [OF rest(2) rest(1)] .
    show ?thesis
      using False Cons.prems(3) by (simp add: Let_def ih attempts_on_append)
  qed
qed

subsection \<open>One cycle\<close>

lemma cycle_head_simps [simp]:
  "channels (cycle_head st) = channels st |-| to_be_removed st"
  "to_be_removed (cycle_head st) = {||}"
  "listeners (cycle_head st) = listeners st"
  "frame_n (cycle_head st) = frame_n st"
  "generated (cycle_head st) = generated st"
  "attempts (cycle_head st) = attempts st"
  by (simp_all add: cycle_head_def)

lemma attempts_on_cycle_head [simp]: "attempts_on c (cycle_head st) = attempts_on c st"
  by (simp add: attempts_on_def)

lemma fcard_le_0_iff: "fcard A \<le> 0 \<longleftrightarrow> A = {||}"
  by simp

lemma cycle_empty:
  "channels st |-| to_be_removed st = {||} \<Longrightarrow>
   cycle env st = (cycle_head st)\<lparr>frame_n := next_frame_n (frame_n st)\<rparr>"
  by (simp add: cycle_def cycle_body_def cycle_prepare_def)

lemma cycle_nonempty:
  "channels st |-| to_be_removed st \<noteq> {||} \<Longrightarrow>
   cycle env st =
     (deliver env (frame_n st) (iter_order env)
        ((cycle_head st)\<lparr>generated := generated st @ [frame_n st]\<rparr>))
       \<lparr>frame_n := next_frame_n (frame_n st)\<rparr>"
  by (simp add: cycle_def cycle_body_def cycle_prepare_def)

lemma cycle_channels [simp]: "channels (cycle env st) = channels st |-| to_be_removed st"
  by (cases "channels st |-| to_be_removed st = {||}") (simp_all add: cycle_empty cycle_nonempty)

lemma cycle_listeners [simp]: "listeners (cycle env st) = listeners st"
  by (cases "channels st |-| to_be_removed st = {||}") (simp_all add: cycle_empty cycle_nonempty)

lemma cycle_frame_n [simp]: "frame_n (cycle env st) = next_frame_n (frame_n st)"
  by (cases "channels st |-| to_be_removed st = {||}") (simp_all add: cycle_empty cycle_nonempty)

text \<open>
  Claim C8. In a cycle whose active set is empty once the drained pending removals are
  taken out, \<^verbatim>\<open>gen_frame\<close> is not called and no \<^verbatim>\<open>send\<close> is attempted: both call
  logs are what they were before the cycle.
\<close>

theorem no_frame_when_active_set_empty:
  assumes "channels st |-| to_be_removed st = {||}"
  shows "generated (cycle env st) = generated st \<and> attempts (cycle env st) = attempts st"
  using assms by (simp add: cycle_empty)

theorem no_frame_when_active_set_empty_witness:
  "generated (cycle \<lparr>iter_order = [], send_raises = (\<lambda>_. False), ready_state_of = (\<lambda>_. Open)\<rparr>
       (emit 1 ''closing'' (add_channel 1 init_state))) = [] \<and>
   attempts (cycle \<lparr>iter_order = [], send_raises = (\<lambda>_. False), ready_state_of = (\<lambda>_. Open)\<rparr>
       (emit 1 ''closing'' (add_channel 1 init_state))) = []"
proof -
  let ?st = "emit 1 ''closing'' (add_channel 1 init_state)"
  have h: "channels ?st |-| to_be_removed ?st = {||}"
    by (simp add: emit_def add_channel_def on_event_def init_state_def)
  have g: "generated ?st = []" "attempts ?st = []"
    by (simp_all add: emit_def add_channel_def on_event_def init_state_def)
  show ?thesis
    using no_frame_when_active_set_empty [OF h] g by simp
qed

text \<open>
  Claim C1. \<^verbatim>\<open>add_channel\<close> inserts the channel into the active set and registers two
  listeners, but the second one under the event name \<^verbatim>\<open>closedkfjsdk\<close>: the channel
  has no listener for \<^verbatim>\<open>closed\<close>, and that event leaves the pending removals as they
  were, while \<^verbatim>\<open>closing\<close> inserts the channel.
\<close>

theorem closed_observer_not_installed:
  "channels (add_channel 7 init_state) = {|7|} \<and>
   to_be_removed (emit 7 ''closing'' (add_channel 7 init_state)) = {|7|} \<and>
   to_be_removed (emit 7 ''closed'' (add_channel 7 init_state)) = {||} \<and>
   listeners (add_channel 7 init_state) 7 ''closed'' = []"
  by (simp add: emit_def add_channel_def on_event_def init_state_def)

subsection \<open>Histories\<close>


lemma add_channel_simps [simp]:
  "channels (add_channel c st) = finsert c (channels st)"
  "to_be_removed (add_channel c st) = to_be_removed st"
  "frame_n (add_channel c st) = frame_n st"
  "generated (add_channel c st) = generated st"
  "attempts (add_channel c st) = attempts st"
  by (simp_all add: add_channel_def on_event_def)

lemma attempts_on_add_channel [simp]: "attempts_on c (add_channel d st) = attempts_on c st"
  by (simp add: attempts_on_def)

lemma foldl_run_handler_simps [simp]:
  "channels (foldl run_handler st hs) = channels st"
  "frame_n (foldl run_handler st hs) = frame_n st"
  "generated (foldl run_handler st hs) = generated st"
  "attempts (foldl run_handler st hs) = attempts st"
  "listeners (foldl run_handler st hs) = listeners st"
proof (induction hs arbitrary: st)
  case Nil
  {
    case 1 show ?case by simp
  next
    case 2 show ?case by simp
  next
    case 3 show ?case by simp
  next
    case 4 show ?case by simp
  next
    case 5 show ?case by simp
  }
next
  case (Cons h hs)
  {
    case 1 show ?case using Cons.IH(1) by (cases h) simp
  next
    case 2 show ?case using Cons.IH(2) by (cases h) simp
  next
    case 3 show ?case using Cons.IH(3) by (cases h) simp
  next
    case 4 show ?case using Cons.IH(4) by (cases h) simp
  next
    case 5 show ?case using Cons.IH(5) by (cases h) simp
  }
qed

lemma foldl_run_handler_mono:
  "x |\<in>| to_be_removed st \<Longrightarrow> x |\<in>| to_be_removed (foldl run_handler st hs)"
proof (induction hs arbitrary: st)
  case Nil
  then show ?case by simp
next
  case (Cons h hs)
  then show ?case by (cases h) simp
qed

lemma emit_simps [simp]:
  "channels (emit c ev st) = channels st"
  "frame_n (emit c ev st) = frame_n st"
  "generated (emit c ev st) = generated st"
  "attempts (emit c ev st) = attempts st"
  by (simp_all add: emit_def)

lemma attempts_on_emit [simp]: "attempts_on c (emit d ev st) = attempts_on c st"
  by (simp add: attempts_on_def)

lemma emit_mono: "x |\<in>| to_be_removed st \<Longrightarrow> x |\<in>| to_be_removed (emit c ev st)"
  by (simp add: emit_def foldl_run_handler_mono)

lemma run_Nil [simp]: "run [] st = st"
  by (simp add: run_def)

lemma run_Cons [simp]: "run (e # evs) st = run evs (step st e)"
  by (simp add: run_def)

lemma run_append: "run (xs @ ys) st = run ys (run xs st)"
  by (simp add: run_def)

text \<open>A channel that is pending removal or not active gets no send call in a cycle.\<close>

lemma cycle_skips_inactive:
  assumes "iter_ok env st" and "c |\<in>| to_be_removed st \<or> c |\<notin>| channels st"
  shows "attempts_on c (cycle env st) = attempts_on c st"
proof (cases "channels st |-| to_be_removed st = {||}")
  case True
  then show ?thesis by (simp add: cycle_empty attempts_on_def)
next
  case False
  have "c \<notin> set (iter_order env)"
    using assms by (auto simp: iter_ok_def)
  then have "attempts_on c (deliver env (frame_n st) (iter_order env)
      ((cycle_head st)\<lparr>generated := generated st @ [frame_n st]\<rparr>)) = attempts_on c st"
    by (simp add: deliver_skip) (simp add: attempts_on_def)
  then show ?thesis
    using False by (simp add: cycle_nonempty) (simp add: attempts_on_def)
qed

lemma cycle_sends_once:
  assumes "iter_ok env st" and "c |\<in>| channels st" and "c |\<notin>| to_be_removed st"
  shows "attempts_on c (cycle env st) = attempts_on c st @ [(c, frame_n st, \<not> send_raises env c)]"
proof -
  have ne: "channels st |-| to_be_removed st \<noteq> {||}"
    using assms(2,3) by auto
  have "distinct (iter_order env)" "c \<in> set (iter_order env)"
    using assms by (auto simp: iter_ok_def)
  then have "attempts_on c (deliver env (frame_n st) (iter_order env)
      ((cycle_head st)\<lparr>generated := generated st @ [frame_n st]\<rparr>)) =
        attempts_on c st @ [(c, frame_n st, \<not> send_raises env c)]"
    by (simp add: deliver_once) (simp add: attempts_on_def)
  then show ?thesis
    using ne by (simp add: cycle_nonempty) (simp add: attempts_on_def)
qed

lemma cycle_marks_failed:
  assumes "iter_ok env st" and "c |\<in>| channels st" and "c |\<notin>| to_be_removed st"
    and "send_raises env c" and "ready_state_of env c \<noteq> Open"
  shows "c |\<in>| to_be_removed (cycle env st)"
proof -
  have ne: "channels st |-| to_be_removed st \<noteq> {||}"
    using assms(2,3) by auto
  have "c \<in> set (iter_order env)"
    using assms(1-3) by (auto simp: iter_ok_def)
  then show ?thesis
    using ne assms(4,5) by (simp add: cycle_nonempty deliver_marks)
qed

lemma step_keeps_pruned:
  assumes "e \<noteq> Add c" and "c |\<in>| to_be_removed st \<or> c |\<notin>| channels st"
  shows "c |\<in>| to_be_removed (step st e) \<or> c |\<notin>| channels (step st e)"
proof (cases e)
  case (Add d)
  then show ?thesis using assms by auto
next
  case (Emit d ev)
  then show ?thesis using assms(2) by (auto simp: emit_mono)
next
  case (Cycle env)
  then show ?thesis using assms(2) by auto
qed

lemma run_keeps_pruned:
  "Add c \<notin> set evs \<Longrightarrow> c |\<in>| to_be_removed st \<or> c |\<notin>| channels st \<Longrightarrow>
   c |\<in>| to_be_removed (run evs st) \<or> c |\<notin>| channels (run evs st)"
proof (induction evs arbitrary: st)
  case Nil
  then show ?case by simp
next
  case (Cons e evs)
  have "e \<noteq> Add c" "Add c \<notin> set evs" using Cons.prems(1) by auto
  then show ?case
    using Cons.IH [of "step st e"] step_keeps_pruned [of e c st] Cons.prems(2) by simp
qed

lemma run_skips_pruned:
  "wf_events evs st \<Longrightarrow> Add c \<notin> set evs \<Longrightarrow> c |\<in>| to_be_removed st \<or> c |\<notin>| channels st \<Longrightarrow>
   attempts_on c (run evs st) = attempts_on c st"
proof (induction evs arbitrary: st)
  case Nil
  then show ?case by simp
next
  case (Cons e evs)
  have ne: "e \<noteq> Add c" "Add c \<notin> set evs" using Cons.prems(2) by auto
  have inv: "c |\<in>| to_be_removed (step st e) \<or> c |\<notin>| channels (step st e)"
    using step_keeps_pruned [OF ne(1) Cons.prems(3)] .
  have wf: "wf_events evs (step st e)"
    using Cons.prems(1) by (cases e) simp_all
  have here: "attempts_on c (step st e) = attempts_on c st"
  proof (cases e)
    case (Add d)
    then show ?thesis by simp
  next
    case (Emit d ev)
    then show ?thesis by simp
  next
    case (Cycle env)
    then have "iter_ok env st" using Cons.prems(1) by simp
    then show ?thesis using Cycle Cons.prems(3) by (simp add: cycle_skips_inactive)
  qed
  show ?case
    using Cons.IH [OF wf ne(2) inv] here by simp
qed

text \<open>
  Claim C6. Take a cycle in which \<^verbatim>\<open>send\<close> raises \<^verbatim>\<open>InvalidStateError\<close> for an
  active channel \<open>c\<close>. Every channel of the active set, \<open>c\<close> and the others, gets exactly
  one send call in that cycle, so the cycle goes on for the others and \<open>c\<close> is not
  retried, and \<open>c\<close> is still in the active set when the cycle ends. If the ready state read
  for \<open>c\<close> is not open, \<open>c\<close> is in the pending removals after the cycle; whatever
  happens next short of adding \<open>c\<close> again, \<open>c\<close> is out of the active set at the end of
  the next cycle and of every later one, and no send call is made on it any more.
\<close>

theorem soft_error_channel_pruned:
  assumes "iter_ok env st" and "c |\<in>| channels st" and "c |\<notin>| to_be_removed st"
    and "send_raises env c"
  shows "(\<forall>d. d |\<in>| channels st |-| to_be_removed st \<longrightarrow>
            attempts_on d (cycle env st) =
              attempts_on d st @ [(d, frame_n st, \<not> send_raises env d)]) \<and>
         c |\<in>| channels (cycle env st) \<and>
         (ready_state_of env c \<noteq> Open \<longrightarrow>
            c |\<in>| to_be_removed (cycle env st) \<and>
            (\<forall>evs env'. Add c \<notin> set evs \<longrightarrow>
               c |\<notin>| channels (cycle env' (run evs (cycle env st)))) \<and>
            (\<forall>evs. wf_events evs (cycle env st) \<and> Add c \<notin> set evs \<longrightarrow>
               attempts_on c (run evs (cycle env st)) = attempts_on c (cycle env st)))"
proof (intro conjI allI impI)
  fix d
  assume "d |\<in>| channels st |-| to_be_removed st"
  then show "attempts_on d (cycle env st) =
      attempts_on d st @ [(d, frame_n st, \<not> send_raises env d)]"
    using assms(1) by (simp add: cycle_sends_once)
next
  show "c |\<in>| channels (cycle env st)"
    using assms(2,3) by simp
next
  assume "ready_state_of env c \<noteq> Open"
  then show "c |\<in>| to_be_removed (cycle env st)"
    using assms by (rule_tac cycle_marks_failed)
next
  fix evs env'
  assume closed: "ready_state_of env c \<noteq> Open" and noadd: "Add c \<notin> set evs"
  have "c |\<in>| to_be_removed (cycle env st)"
    using assms closed by (rule_tac cycle_marks_failed)
  then have "c |\<in>| to_be_removed (run evs (cycle env st)) \<or> c |\<notin>| channels (run evs (cycle env st))"
    using run_keeps_pruned [OF noadd] by blast
  then show "c |\<notin>| channels (cycle env' (run evs (cycle env st)))"
    by auto
next
  fix evs
  assume closed: "ready_state_of env c \<noteq> Open"
    and evs: "wf_events evs (cycle env st) \<and> Add c \<notin> set evs"
  have "c |\<in>| to_be_removed (cycle env st)"
    using assms closed by (rule_tac cycle_marks_failed)
  then show "attempts_on c (run evs (cycle env st)) = attempts_on c (cycle env st)"
    using evs by (simp add: run_skips_pruned)
qed


lemma env_with_simps [simp]:
  "iter_order (env_with order failing) = order"
  "send_raises (env_with order failing) c \<longleftrightarrow> c \<in> set failing"
  "ready_state_of (env_with order failing) c = (if c \<in> set failing then Closed else Open)"
  by (simp_all add: env_with_def)

lemma init_state_simps [simp]:
  "channels init_state = {||}"
  "to_be_removed init_state = {||}"
  "frame_n init_state = 0"
  "generated init_state = []"
  "attempts init_state = []"
  "attempts_on c init_state = []"
  by (simp_all add: init_state_def attempts_on_def)

theorem soft_error_channel_pruned_witness:
  "attempts_on 2 (cycle (env_with [3, 2] [3]) (add_channel 2 (add_channel 3 init_state))) =
     [(2, 0, True)] \<and>
   attempts_on 3 (cycle (env_with [3, 2] [3]) (add_channel 2 (add_channel 3 init_state))) =
     [(3, 0, False)] \<and>
   3 |\<in>| channels (cycle (env_with [3, 2] [3]) (add_channel 2 (add_channel 3 init_state))) \<and>
   3 |\<in>| to_be_removed (cycle (env_with [3, 2] [3]) (add_channel 2 (add_channel 3 init_state))) \<and>
   3 |\<notin>| channels (cycle (env_with [2] [])
      (run [] (cycle (env_with [3, 2] [3]) (add_channel 2 (add_channel 3 init_state))))) \<and>
   attempts_on 3 (run [Cycle (env_with [2] [])]
      (cycle (env_with [3, 2] [3]) (add_channel 2 (add_channel 3 init_state)))) =
     attempts_on 3 (cycle (env_with [3, 2] [3]) (add_channel 2 (add_channel 3 init_state)))"
proof -
  let ?st = "add_channel 2 (add_channel 3 init_state)"
  let ?env = "env_with [3, 2] [3]"
  have st: "channels ?st = {|2, 3|}" "to_be_removed ?st = {||}" "frame_n ?st = 0"
    "attempts_on 3 ?st = []" "attempts_on 2 ?st = []"
    by auto
  have h1: "iter_ok ?env ?st"
    by (auto simp: iter_ok_def st)
  have h2: "3 |\<in>| channels ?st" and h3: "3 |\<notin>| to_be_removed ?st"
    by (simp_all add: st)
  have h4: "send_raises ?env 3"
    by simp
  note inst = soft_error_channel_pruned [OF h1 h2 h3 h4]
  have closed: "ready_state_of ?env 3 \<noteq> Open"
    by simp
  have after: "channels (cycle ?env ?st) = {|2, 3|}"
    by (auto simp: st)
  have marked: "to_be_removed (cycle ?env ?st) = {|3|}"
    by (simp add: cycle_nonempty st Let_def cycle_head_def)
  have wf: "wf_events [Cycle (env_with [2] [])] (cycle ?env ?st)"
    by (auto simp: iter_ok_def after marked)
  have a2: "attempts_on 2 (cycle ?env ?st) = [(2, 0, True)]"
    using inst st by simp
  have a1: "attempts_on 3 (cycle ?env ?st) = [(3, 0, False)]"
    using inst st by simp
  have a3: "3 |\<in>| channels (cycle ?env ?st)"
    using inst by blast
  have a4: "3 |\<in>| to_be_removed (cycle ?env ?st)"
    using inst closed by blast
  have a5: "3 |\<notin>| channels (cycle (env_with [2] []) (run [] (cycle ?env ?st)))"
  proof -
    have "\<forall>evs env'. Add 3 \<notin> set evs \<longrightarrow> 3 |\<notin>| channels (cycle env' (run evs (cycle ?env ?st)))"
      using inst closed by blast
    then have "Add 3 \<notin> set [] \<longrightarrow> 3 |\<notin>| channels (cycle (env_with [2] []) (run [] (cycle ?env ?st)))"
      by blast
    then show ?thesis by simp
  qed
  have a6: "attempts_on 3 (run [Cycle (env_with [2] [])] (cycle ?env ?st)) =
      attempts_on 3 (cycle ?env ?st)"
  proof -
    have "\<forall>evs. wf_events evs (cycle ?env ?st) \<and> Add 3 \<notin> set evs \<longrightarrow>
        attempts_on 3 (run evs (cycle ?env ?st)) = attempts_on 3 (cycle ?env ?st)"
      using inst closed by blast
    then have "wf_events [Cycle (env_with [2] [])] (cycle ?env ?st) \<and>
        Add 3 \<notin> set [Cycle (env_with [2] [])] \<longrightarrow>
        attempts_on 3 (run [Cycle (env_with [2] [])] (cycle ?env ?st)) = attempts_on 3 (cycle ?env ?st)"
      by blast
    then show ?thesis using wf by simp
  qed
  show ?thesis
    using a1 a2 a3 a4 a5 a6 by blast
qed


subsection \<open>The indices a channel is sent\<close>

lemma delivered_attempts_on:
  "delivered c st = map (\<lambda>a. fst (snd a)) (filter (\<lambda>a. snd (snd a)) (attempts_on c st))"
  by (simp add: delivered_def attempts_on_def conj_commute)

lemma delivered_add_channel [simp]: "delivered c (add_channel d st) = delivered c st"
  by (simp add: delivered_def)

lemma delivered_emit [simp]: "delivered c (emit d ev st) = delivered c st"
  by (simp add: delivered_def)

lemma next_frame_n_no_wrap:
  "0 \<le> f \<Longrightarrow> f + int k < 65536 \<Longrightarrow> (next_frame_n ^^ k) f = f + int k"
proof (induction k)
  case 0
  show ?case by simp
next
  case (Suc k)
  then have "(next_frame_n ^^ k) f = f + int k" by simp
  then have "(next_frame_n ^^ Suc k) f = (f + int k + 1) mod 65536"
    by (simp add: next_frame_n_def n_of_unique_frames_value)
  also have "\<dots> = f + int k + 1"
    using Suc.prems by simp
  finally show ?case by simp
qed

lemma delivered_run:
  "wf_events evs st \<Longrightarrow> stays_active c evs st \<Longrightarrow> sends_succeed c evs \<Longrightarrow>
   delivered c (run evs st) =
     delivered c st @ map (\<lambda>k. (next_frame_n ^^ k) (frame_n st)) [0..<cycles evs]"
proof (induction evs arbitrary: st)
  case Nil
  then show ?case by simp
next
  case (Cons e evs)
  show ?case
  proof (cases e)
    case (Add d)
    then show ?thesis using Cons.IH [of "add_channel d st"] Cons.prems by simp
  next
    case (Emit d ev)
    then show ?thesis using Cons.IH [of "emit d ev st"] Cons.prems by simp
  next
    case (Cycle env)
    have ok: "iter_ok env st" and wf: "wf_events evs (cycle env st)"
      using Cons.prems(1) Cycle by simp_all
    have act: "c |\<in>| channels st" and rest: "stays_active c evs (cycle env st)"
      using Cons.prems(2) Cycle by simp_all
    have good: "\<not> send_raises env c" and succ: "sends_succeed c evs"
      using Cons.prems(3) Cycle by simp_all
    have "c |\<in>| channels (cycle env st)"
      using rest by (cases evs) simp_all
    then have notpending: "c |\<notin>| to_be_removed st"
      by simp
    have here: "delivered c (cycle env st) = delivered c st @ [frame_n st]"
      using cycle_sends_once [OF ok act notpending] good
      by (simp add: delivered_attempts_on)
    have shift: "map (\<lambda>k. (next_frame_n ^^ k) (next_frame_n (frame_n st))) [0..<cycles evs] =
        map (\<lambda>k. (next_frame_n ^^ k) (frame_n st)) [Suc 0..<Suc (cycles evs)]"
      by (simp only: map_Suc_upt [symmetric] map_map o_def funpow_Suc_right)
    have "delivered c (run (e # evs) st) =
        delivered c st @ frame_n st #
          map (\<lambda>k. (next_frame_n ^^ k) (frame_n st)) [Suc 0..<Suc (cycles evs)]"
      using Cons.IH [OF wf rest succ] here shift Cycle by simp
    also have "frame_n st # map (\<lambda>k. (next_frame_n ^^ k) (frame_n st)) [Suc 0..<Suc (cycles evs)] =
        map (\<lambda>k. (next_frame_n ^^ k) (frame_n st)) [0..<Suc (cycles evs)]"
      by (simp add: upt_conv_Cons del: upt_Suc)
    finally show ?thesis using Cycle by simp
  qed
qed

text \<open>
  Claim C4, as amended. For a channel that stays in the active set and whose sends keep
  succeeding, the frame indices it is sent are consecutive under \<^verbatim>\<open>next_frame_n\<close>, one
  per cycle, starting at the index of the first of these cycles. They are strictly
  increasing as long as the index does not wrap, that is over at most
  \<open>65536 - frame_n\<close> cycles.
\<close>

theorem frames_consecutive_while_active:
  assumes "wf_events evs st" and "stays_active c evs st" and "sends_succeed c evs"
  shows "delivered c (run evs st) =
           delivered c st @ map (\<lambda>k. (next_frame_n ^^ k) (frame_n st)) [0..<cycles evs] \<and>
         (0 \<le> frame_n st \<and> frame_n st + int (cycles evs) \<le> 65536 \<longrightarrow>
            sorted_wrt (<) (map (\<lambda>k. (next_frame_n ^^ k) (frame_n st)) [0..<cycles evs]))"
proof (intro conjI impI)
  show "delivered c (run evs st) =
      delivered c st @ map (\<lambda>k. (next_frame_n ^^ k) (frame_n st)) [0..<cycles evs]"
    using assms by (rule delivered_run)
next
  assume range: "0 \<le> frame_n st \<and> frame_n st + int (cycles evs) \<le> 65536"
  have eq: "map (\<lambda>k. (next_frame_n ^^ k) (frame_n st)) [0..<cycles evs] =
      map (\<lambda>k. frame_n st + int k) [0..<cycles evs]"
  proof (rule map_cong [OF refl])
    fix k
    assume "k \<in> set [0..<cycles evs]"
    then have "frame_n st + int k < 65536" using range by simp
    then show "(next_frame_n ^^ k) (frame_n st) = frame_n st + int k"
      using range by (simp add: next_frame_n_no_wrap)
  qed
  have inc: "sorted_wrt (<) (map (\<lambda>k. frame_n st + int k) [0..<cycles evs])"
    by (simp add: sorted_wrt_map)
  show "sorted_wrt (<) (map (\<lambda>k. (next_frame_n ^^ k) (frame_n st)) [0..<cycles evs])"
    by (simp only: eq inc)
qed


lemma cycle_no_failures:
  assumes "\<forall>x. x \<in> set (iter_order env) \<longrightarrow> \<not> send_raises env x"
  shows "to_be_removed (cycle env st) = {||}"
proof (cases "channels st |-| to_be_removed st = {||}")
  case True
  then show ?thesis by (simp add: cycle_empty)
next
  case False
  have "x |\<notin>| to_be_removed (deliver env (frame_n st) (iter_order env)
      ((cycle_head st)\<lparr>generated := generated st @ [frame_n st]\<rparr>))" for x
    using deliver_to_be_removed_new [of x env "frame_n st" "iter_order env"
        "(cycle_head st)\<lparr>generated := generated st @ [frame_n st]\<rparr>"] assms
    by auto
  then show ?thesis
    using False by (auto simp: cycle_nonempty)
qed

lemma idle_run:
  "channels st = {||} \<Longrightarrow> to_be_removed st = {||} \<Longrightarrow>
   run (replicate n (Cycle env)) st = st\<lparr>frame_n := (next_frame_n ^^ n) (frame_n st)\<rparr>"
proof (induction n arbitrary: st)
  case 0
  show ?case by simp
next
  case (Suc n)
  have one: "cycle env st = st\<lparr>frame_n := next_frame_n (frame_n st)\<rparr>"
    using Suc.prems by (simp add: cycle_empty cycle_head_def)
  have "run (replicate (Suc n) (Cycle env)) st = run (replicate n (Cycle env)) (cycle env st)"
    by simp
  also have "\<dots> = (cycle env st)\<lparr>frame_n := (next_frame_n ^^ n) (frame_n (cycle env st))\<rparr>"
    using Suc.prems by (intro Suc.IH) (simp_all add: one)
  also have "\<dots> = st\<lparr>frame_n := (next_frame_n ^^ Suc n) (frame_n st)\<rparr>"
    by (simp add: one funpow_swap1)
  finally show ?case .
qed

lemma delivered_init_state [simp]: "delivered c init_state = []"
  by (simp add: delivered_def)

theorem frames_consecutive_while_active_witness:
  "delivered 2 (run [Cycle (env_with [2] []), Cycle (env_with [2] [])] (add_channel 2 init_state)) =
     [0, 1] \<and>
   sorted_wrt (<) (map (\<lambda>k. (next_frame_n ^^ k) (frame_n (add_channel 2 init_state)))
     [0..<cycles [Cycle (env_with [2] []), Cycle (env_with [2] [])]])"
proof -
  let ?st = "add_channel 2 init_state"
  let ?env = "env_with [2] []"
  have tbr: "to_be_removed (cycle ?env ?st) = {||}"
    by (rule cycle_no_failures) simp
  have h1: "wf_events [Cycle ?env, Cycle ?env] ?st"
    by (simp add: iter_ok_def tbr)
  have h2: "stays_active 2 [Cycle ?env, Cycle ?env] ?st"
    by (simp add: tbr)
  have h3: "sends_succeed 2 [Cycle ?env, Cycle ?env]"
    by simp
  have n1: "next_frame_n 0 = 1"
    by (simp add: next_frame_n_def n_of_unique_frames_value)
  have two: "[0..<cycles [Cycle ?env, Cycle ?env]] = [0, 1]"
    by (simp add: upt_conv_Cons)
  show ?thesis
    using frames_consecutive_while_active [OF h1 h2 h3] n1
    by (simp add: two del: run_Cons)
qed

text \<open>
  The claim as stated fails at the wrap. The loop idles for 65535 cycles with no channel,
  channel 2 is added, and two cycles deliver to it: it is sent the indices 65535 and
  then 0.
\<close>

theorem frames_wrap_counterexample:
  "stays_active 2 [Cycle (env_with [2] []), Cycle (env_with [2] [])]
     (run (replicate 65535 (Cycle (env_with [] [])) @ [Add 2]) init_state) \<and>
   sends_succeed 2 [Cycle (env_with [2] []), Cycle (env_with [2] [])] \<and>
   delivered 2
     (run (replicate 65535 (Cycle (env_with [] [])) @
        [Add 2, Cycle (env_with [2] []), Cycle (env_with [2] [])]) init_state) = [65535, 0] \<and>
   \<not> sorted_wrt (<) (delivered 2
     (run (replicate 65535 (Cycle (env_with [] [])) @
        [Add 2, Cycle (env_with [2] []), Cycle (env_with [2] [])]) init_state))"
proof -
  let ?env = "env_with [2] []"
  define st1 where "st1 = run (replicate 65535 (Cycle (env_with [] []))) init_state"
  have "(next_frame_n ^^ 65535) 0 = 0 + int 65535"
    by (rule next_frame_n_no_wrap) simp_all
  then have idle: "st1 = init_state\<lparr>frame_n := 65535\<rparr>"
    unfolding st1_def by (simp add: idle_run)
  have s1: "channels st1 = {||}" "to_be_removed st1 = {||}" "frame_n st1 = 65535"
    "delivered 2 st1 = []"
    by (simp_all add: idle delivered_def)
  let ?st2 = "add_channel 2 st1"
  have tbr: "to_be_removed (cycle ?env ?st2) = {||}"
    by (rule cycle_no_failures) simp
  have wf: "wf_events [Cycle ?env, Cycle ?env] ?st2"
    by (simp add: iter_ok_def tbr s1)
  have act: "stays_active 2 [Cycle ?env, Cycle ?env] ?st2"
    by (simp add: tbr s1)
  have succ: "sends_succeed 2 [Cycle ?env, Cycle ?env]"
    by simp
  have wrap: "next_frame_n 65535 = 0"
    by (simp add: next_frame_n_def n_of_unique_frames_value)
  have two: "[0..<cycles [Cycle ?env, Cycle ?env]] = [0, 1]"
    by (simp add: upt_conv_Cons)
  have d: "delivered 2 (run [Cycle ?env, Cycle ?env] ?st2) = [65535, 0]"
    using delivered_run [OF wf act succ] wrap
    by (simp add: two s1 del: run_Cons)
  have split1: "run (replicate 65535 (Cycle (env_with [] [])) @ [Add 2]) init_state = ?st2"
    by (simp only: run_append st1_def run_Cons run_Nil step.simps)
  have split2: "run (replicate 65535 (Cycle (env_with [] [])) @ [Add 2, Cycle ?env, Cycle ?env])
      init_state = run [Cycle ?env, Cycle ?env] ?st2"
    by (simp only: run_append st1_def run_Cons run_Nil step.simps)
  show ?thesis
    by (simp only: split1 split2 d act succ) simp
qed


subsection \<open>A channel added during a cycle\<close>

lemma cycle_with_add_nonempty:
  "channels st |-| to_be_removed st \<noteq> {||} \<Longrightarrow>
   cycle_with_add c env st =
     (deliver env (frame_n st) (iter_order env)
        (add_channel c ((cycle_head st)\<lparr>generated := generated st @ [frame_n st]\<rparr>)))
       \<lparr>frame_n := next_frame_n (frame_n st)\<rparr>"
  by (simp add: cycle_with_add_def cycle_prepare_def)

text \<open>
  Claim C2, as amended. A channel added between two cycles, and not pending removal,
  gets its first send call in the next cycle. A channel added during a cycle is not
  kept out of that cycle: added after the frame was generated and before the delivery
  loop starts, it gets a send call with that cycle's frame.
\<close>

theorem added_channel_delivery:
  assumes "channels st |-| to_be_removed st \<noteq> {||}"
    and "distinct (iter_order env)"
    and "set (iter_order env) = fset (finsert c (channels st |-| to_be_removed st))"
    and "iter_ok env' (add_channel c st')"
    and "c |\<notin>| to_be_removed st'"
  shows "attempts_on c (cycle_with_add c env st) =
           attempts_on c st @ [(c, frame_n st, \<not> send_raises env c)] \<and>
         attempts_on c (cycle env' (add_channel c st')) =
           attempts_on c st' @ [(c, frame_n st', \<not> send_raises env' c)]"
proof
  have "c \<in> set (iter_order env)"
    using assms(3) by simp
  then have "attempts_on c (deliver env (frame_n st) (iter_order env)
      (add_channel c ((cycle_head st)\<lparr>generated := generated st @ [frame_n st]\<rparr>))) =
      attempts_on c st @ [(c, frame_n st, \<not> send_raises env c)]"
    using assms(2) by (simp add: deliver_once) (simp add: attempts_on_def)
  then show "attempts_on c (cycle_with_add c env st) =
      attempts_on c st @ [(c, frame_n st, \<not> send_raises env c)]"
    using assms(1) by (simp add: cycle_with_add_nonempty) (simp add: attempts_on_def)
next
  show "attempts_on c (cycle env' (add_channel c st')) =
      attempts_on c st' @ [(c, frame_n st', \<not> send_raises env' c)]"
    using cycle_sends_once [OF assms(4), of c] assms(5) by simp
qed

theorem added_channel_delivery_witness:
  "attempts_on 3 (cycle_with_add 3 (env_with [2, 3] []) (add_channel 2 init_state)) =
     [(3, 0, True)] \<and>
   attempts_on 3 (cycle (env_with [3, 2] []) (add_channel 3 (add_channel 2 init_state))) =
     [(3, 0, True)]"
proof -
  let ?st = "add_channel 2 init_state"
  have h1: "channels ?st |-| to_be_removed ?st \<noteq> {||}"
    by simp
  have h2: "distinct (iter_order (env_with [2, 3] []))"
    by simp
  have h3: "set (iter_order (env_with [2, 3] [])) =
      fset (finsert 3 (channels ?st |-| to_be_removed ?st))"
    by auto
  have h4: "iter_ok (env_with [3, 2] []) (add_channel 3 ?st)"
    by (auto simp: iter_ok_def)
  have h5: "3 |\<notin>| to_be_removed ?st"
    by simp
  show ?thesis
    using added_channel_delivery [OF h1 h2 h3 h4 h5] by simp
qed

text \<open>
  The claim as stated fails: channel 2 is active, the cycle for frame 0 has applied its
  removals and generated the frame, channel 3 is added, and the loop then sends frame 0
  to channel 3 in that same cycle.
\<close>

theorem mid_cycle_add_counterexample:
  "snd (cycle_prepare (add_channel 2 init_state)) \<and>
   delivered 3 (cycle_with_add 3 (env_with [2, 3] []) (add_channel 2 init_state)) = [0]"
  by (simp add: cycle_with_add_def cycle_prepare_def delivered_def Let_def)


subsection \<open>Offers and shutdown\<close>

lemma answer_state [simp]: "snd (answer env conn_req i connection st) = st"
  by (simp add: answer_def split: sum.splits prod.splits)

lemma on_shutdown_simps [simp]:
  "connections (on_shutdown st) = []"
  "close_calls (on_shutdown st) = close_calls st @ map snd (connections st)"
  "next_conn (on_shutdown st) = next_conn st"
  "conn_listeners (on_shutdown st) = conn_listeners st"
  by (simp_all add: on_shutdown_def)

lemma offer_new_session:
  assumes "from_dict data = Inr conn_req" and "id' conn_req = None"
    and "negotiate env (next_conn st) (sdp conn_req) (type' conn_req) = Inr (s, t)"
  shows "fst (offer env (Some data) st) = Inr \<lparr>r_sdp = s, r_type = t, r_id = uuid4 env\<rparr>"
    and "connections (snd (offer env (Some data) st)) =
           AList.update (uuid4 env) (next_conn st) (connections st)"
  using assms
  by (simp_all add: offer_def Let_def answer_def handle_new_connection_def on_conn_def)

lemma test_offer_body_parses:
  "from_dict test_offer_body = Inr \<lparr>sdp = ''v=0'', type' = ''offer'', id' = None\<rparr>"
  by (simp add: test_offer_body_def str_field_def opt_str_field_def)

lemma test_offer_env_simps [simp]:
  "uuid4 (test_offer_env fresh) = fresh"
  "negotiate (test_offer_env fresh) c s t = Inr (''answer-sdp'', ''answer'')"
  "uuid_of_string (test_offer_env fresh) ''8'' = Some 8"
  by (simp_all add: test_offer_env_def)

lemma first_test_offer:
  "snd (offer (test_offer_env 7) (Some test_offer_body) cm_init) =
     \<lparr>connections = [(7, 0)], next_conn = 1,
      conn_listeners = [(0, ''connectionstatechange'', On_constate 7 0),
                        (0, ''datachannel'', On_datachannel 0)],
      close_calls = []\<rparr>"
  by (simp add: offer_def test_offer_body_parses Let_def cm_init_def answer_def
      handle_new_connection_def on_conn_def)

text \<open>
  Claim C5. An offer whose body does not parse into a \<^verbatim>\<open>ConnectionInfo\<close>, and an offer
  whose \<^verbatim>\<open>id\<close> names no tracked session, fail with an error and leave the whole state
  of the connection manager, the session registry included, as it was.
\<close>

theorem rejected_offer_leaves_registry:
  assumes "unparsable body \<or> unknown_session env body st"
  shows "isl (fst (offer env body st)) \<and> snd (offer env body st) = st"
proof (cases body)
  case None
  then show ?thesis by (simp add: offer_def)
next
  case (Some data)
  show ?thesis
  proof (cases "from_dict data")
    case (Inl e)
    then show ?thesis using Some by (simp add: offer_def)
  next
    case (Inr conn_req)
    then have unknown: "unknown_session env body st"
      using assms Some by (simp add: unparsable_def)
    then obtain s where s: "id' conn_req = Some s"
      using Some Inr by (cases "id' conn_req") (simp_all add: unknown_session_def)
    show ?thesis
    proof (cases "uuid_of_string env s")
      case None
      then show ?thesis using Some Inr s by (simp add: offer_def)
    next
      case (Some i)
      then have "map_of (connections st) i = None"
        using unknown \<open>body = Some data\<close> Inr s by (simp add: unknown_session_def)
      then show ?thesis
        using Some \<open>body = Some data\<close> Inr s by (simp add: offer_def)
    qed
  qed
qed

theorem rejected_offer_leaves_registry_witness:
  "isl (fst (offer (test_offer_env 8)
      (Some (JObj [(''sdp'', JStr ''v=0''), (''type'', JStr ''offer''), (''id'', JStr ''8'')]))
      (snd (offer (test_offer_env 7) (Some test_offer_body) cm_init)))) \<and>
   snd (offer (test_offer_env 8)
      (Some (JObj [(''sdp'', JStr ''v=0''), (''type'', JStr ''offer''), (''id'', JStr ''8'')]))
      (snd (offer (test_offer_env 7) (Some test_offer_body) cm_init))) =
     snd (offer (test_offer_env 7) (Some test_offer_body) cm_init) \<and>
   isl (fst (offer (test_offer_env 8) (Some (JObj [(''sdp'', JStr ''v=0'')]))
      (snd (offer (test_offer_env 7) (Some test_offer_body) cm_init)))) \<and>
   snd (offer (test_offer_env 8) (Some (JObj [(''sdp'', JStr ''v=0'')]))
      (snd (offer (test_offer_env 7) (Some test_offer_body) cm_init))) =
     snd (offer (test_offer_env 7) (Some test_offer_body) cm_init)"
proof -
  let ?st = "snd (offer (test_offer_env 7) (Some test_offer_body) cm_init)"
  let ?unknown = "Some (JObj [(''sdp'', JStr ''v=0''), (''type'', JStr ''offer''), (''id'', JStr ''8'')])"
  let ?broken = "Some (JObj [(''sdp'', JStr ''v=0'')])"
  have h1: "unparsable ?unknown \<or> unknown_session (test_offer_env 8) ?unknown ?st"
    by (simp add: unknown_session_def first_test_offer str_field_def opt_str_field_def)
  have h2: "unparsable ?broken \<or> unknown_session (test_offer_env 8) ?broken ?st"
    by (simp add: unparsable_def str_field_def)
  show ?thesis
    using rejected_offer_leaves_registry [OF h1] rejected_offer_leaves_registry [OF h2]
    by blast
qed

text \<open>
  Claim C3, as amended. \<^verbatim>\<open>on_shutdown\<close> makes one \<^verbatim>\<open>close()\<close> call for each tracked
  session and leaves the registry empty. \<^verbatim>\<open>offer\<close> has no check for shutdown: an offer
  without \<^verbatim>\<open>id\<close> handled after the hook is answered like any other, and registers a
  new session.
\<close>

theorem shutdown_closes_all_and_offers_go_on:
  assumes "from_dict data = Inr conn_req" and "id' conn_req = None"
    and "negotiate env (next_conn st) (sdp conn_req) (type' conn_req) = Inr (s, t)"
  shows "close_calls (on_shutdown st) = close_calls st @ map snd (connections st) \<and>
         connections (on_shutdown st) = [] \<and>
         fst (offer env (Some data) (on_shutdown st)) =
           Inr \<lparr>r_sdp = s, r_type = t, r_id = uuid4 env\<rparr> \<and>
         connections (snd (offer env (Some data) (on_shutdown st))) =
           [(uuid4 env, next_conn st)]"
  using offer_new_session [of data conn_req env "on_shutdown st" s t] assms
  by simp

theorem shutdown_closes_all_and_offers_go_on_witness:
  "close_calls (on_shutdown (snd (offer (test_offer_env 7) (Some test_offer_body) cm_init))) =
     [0] \<and>
   connections (on_shutdown (snd (offer (test_offer_env 7) (Some test_offer_body) cm_init))) =
     [] \<and>
   connections (snd (offer (test_offer_env 8) (Some test_offer_body)
     (on_shutdown (snd (offer (test_offer_env 7) (Some test_offer_body) cm_init))))) =
     [(8, 1)]"
proof -
  let ?st = "snd (offer (test_offer_env 7) (Some test_offer_body) cm_init)"
  have h3: "negotiate (test_offer_env 8) (next_conn ?st)
      (sdp \<lparr>sdp = ''v=0'', type' = ''offer'', id' = None\<rparr>)
      (type' \<lparr>sdp = ''v=0'', type' = ''offer'', id' = None\<rparr>) = Inr (''answer-sdp'', ''answer'')"
    by simp
  have h2: "id' \<lparr>sdp = ''v=0'', type' = ''offer'', id' = None\<rparr> = None"
    by simp
  show ?thesis
    using shutdown_closes_all_and_offers_go_on [OF test_offer_body_parses h2 h3]
    by (simp add: first_test_offer)
qed

text \<open>
  The claim as stated fails: a session is registered, the shutdown hook runs, and an
  offer handled after it gets an answer and leaves a session in the registry.
\<close>

theorem offer_after_shutdown_counterexample:
  "fst (offer (test_offer_env 8) (Some test_offer_body)
     (on_shutdown (snd (offer (test_offer_env 7) (Some test_offer_body) cm_init)))) =
     Inr \<lparr>r_sdp = ''answer-sdp'', r_type = ''answer'', r_id = 8\<rparr> \<and>
   connections (snd (offer (test_offer_env 8) (Some test_offer_body)
     (on_shutdown (snd (offer (test_offer_env 7) (Some test_offer_body) cm_init))))) =
     [(8, 1)]"
  by (simp add: offer_def test_offer_body_parses Let_def cm_init_def
      on_shutdown_def answer_def handle_new_connection_def on_conn_def)


subsection \<open>The payload\<close>

lemma length_le_bytes [simp]: "length (le_bytes n w) = n"
  by (simp add: le_bytes_def)

lemma length_tobytes [simp]: "length (tobytes fp n w) = n"
  by (simp add: tobytes_def)

lemma length_gen_t [simp]: "length (gen_t fp) = 1000"
  by (simp add: gen_t_def np_linspace_def)

lemma length_gen_y [simp]: "length (gen_y fp i) = 1000"
  by (simp add: gen_y_def)

lemma length_gen_dt [simp]: "length (gen_dt fp) = 1000"
  by (simp add: gen_dt_def np_diff_def Let_def)

lemma u16_roundtrip:
  assumes "0 \<le> i" and "i < 65536"
  shows "u16_of_bytes fp (tobytes fp 2 (word_of_int i :: 16 word)) = nat i"
proof -
  let ?w = "word_of_int i :: 16 word"
  have w: "unat ?w = nat i"
    using assms by (simp add: unsigned_of_int take_bit_eq_mod)
  have two: "[0..<2] = [0, 1]"
    by (simp add: upt_conv_Cons)
  have lo: "unat (ucast ?w :: byte) = nat i mod 256"
    by (simp add: unsigned_ucast_eq w take_bit_eq_mod)
  have "unat (drop_bit 8 ?w) = nat i div 256"
    by (simp only: unat_drop_bit_eq w) (simp add: drop_bit_eq_div)
  moreover have "nat i div 256 < 256"
    using assms by simp
  ultimately have hi: "unat (ucast (drop_bit 8 ?w) :: byte) = nat i div 256"
    by (simp add: unsigned_ucast_eq take_bit_eq_mod)
  have "unat (ucast ?w :: byte) + 256 * unat (ucast (drop_bit 8 ?w) :: byte) = nat i"
    by (simp only: lo hi) simp
  then show ?thesis
    by (simp add: u16_of_bytes_def tobytes_def le_bytes_def two)
qed

lemma concat_blocks:
  assumes "\<And>x. length (f x) = n" and "k < length xs"
  shows "take n (drop (n * k) (concat (map f xs))) = f (xs ! k)"
  using assms(2)
proof (induction xs arbitrary: k)
  case Nil
  then show ?case by simp
next
  case (Cons x xs)
  show ?case
  proof (cases k)
    case 0
    then show ?thesis by (simp add: assms(1))
  next
    case (Suc j)
    then have "j < length xs" using Cons.prems by simp
    then have "take n (drop (n * j) (concat (map f xs))) = f (xs ! j)"
      by (rule Cons.IH)
    then show ?thesis
      using Suc by (simp add: assms(1))
  qed
qed

lemma length_concat_blocks:
  assumes "\<And>x. length (f x) = n"
  shows "length (concat (map f xs)) = n * length xs"
  by (induction xs) (simp_all add: assms)


lemma pair_block:
  "length (case x of (d, s) \<Rightarrow> tobytes fp 8 d @ tobytes fp 8 s) = 16"
  by (cases x) simp

lemma frame_from_arrays_layout:
  assumes len: "length dt = length y" and k: "k < length dt"
  shows "\<exists>p. frame_from_arrays fp dt y i = Inr p \<and>
           length p = 2 + 16 * length dt \<and>
           take 2 p = tobytes fp 2 (word_of_int i :: 16 word) \<and>
           take 8 (drop (2 + 16 * k) p) = tobytes fp 8 (dt ! k) \<and>
           take 8 (drop (2 + 16 * k + 8) p) = tobytes fp 8 (y ! k)"
proof -
  let ?f = "\<lambda>x. case x of (d, s) \<Rightarrow> tobytes fp 8 d @ tobytes fp 8 s"
  let ?body = "concat (map ?f (zip dt y))"
  let ?p = "tobytes fp 2 (word_of_int i :: 16 word) @ ?body"
  have kz: "k < length (zip dt y)"
    using len k by simp
  have blk: "take 16 (drop (16 * k) ?body) = ?f (zip dt y ! k)"
    using concat_blocks [of ?f 16 k "zip dt y", OF pair_block kz] .
  then have blk': "take 16 (drop (16 * k) ?body) = tobytes fp 8 (dt ! k) @ tobytes fp 8 (y ! k)"
    using len k by simp
  have "take 8 (drop (16 * k) ?body) = take 8 (take 16 (drop (16 * k) ?body))"
    by simp
  then have first: "take 8 (drop (16 * k) ?body) = tobytes fp 8 (dt ! k)"
    by (simp only: blk') simp
  have "take 8 (drop (16 * k + 8) ?body) = drop 8 (take 16 (drop (16 * k) ?body))"
    by (simp add: drop_take add.commute)
  then have second: "take 8 (drop (16 * k + 8) ?body) = tobytes fp 8 (y ! k)"
    by (simp only: blk') simp
  have total: "length ?body = 16 * length dt"
    using length_concat_blocks [of ?f 16 "zip dt y", OF pair_block] len by simp
  have "frame_from_arrays fp dt y i = Inr ?p"
    using len by (simp add: frame_from_arrays_def)
  moreover have "length ?p = 2 + 16 * length dt"
    using total by simp
  moreover have "take 2 ?p = tobytes fp 2 (word_of_int i :: 16 word)"
    by simp
  moreover have "take 8 (drop (2 + 16 * k) ?p) = tobytes fp 8 (dt ! k)"
    using first by simp
  moreover have "take 8 (drop (2 + 16 * k + 8) ?p) = tobytes fp 8 (y ! k)"
    using second by (simp add: ac_simps)
  ultimately show ?thesis
    by blast
qed

text \<open>
  Claim C9. For an index \<open>0 \<le> i < 65536\<close> the payload of \<^verbatim>\<open>gen_frame\<close> is 2 + 1000 * 16
  bytes: the first two are the unsigned 16-bit encoding of \<open>i\<close>, and after them come
  1000 pairs of 8-byte floats, pair \<open>k\<close> being \<^verbatim>\<open>dt[k]\<close> followed by \<^verbatim>\<open>y[k]\<close>.
\<close>

theorem gen_frame_layout:
  assumes "0 \<le> i" and "i < 65536" and "k < 1000"
  shows "\<exists>p. gen_frame fp i = Inr p \<and>
           length p = 2 + 1000 * 16 \<and>
           take 2 p = tobytes fp 2 (word_of_int i :: 16 word) \<and>
           u16_of_bytes fp (take 2 p) = nat i \<and>
           length (gen_dt fp) = 1000 \<and> length (gen_y fp i) = 1000 \<and>
           take 8 (drop (2 + 16 * k) p) = tobytes fp 8 (gen_dt fp ! k) \<and>
           take 8 (drop (2 + 16 * k + 8) p) = tobytes fp 8 (gen_y fp i ! k)"
proof -
  have len: "length (gen_dt fp) = length (gen_y fp i)" and k: "k < length (gen_dt fp)"
    using assms(3) by simp_all
  obtain p where p: "frame_from_arrays fp (gen_dt fp) (gen_y fp i) i = Inr p"
      "length p = 2 + 16 * length (gen_dt fp)"
      "take 2 p = tobytes fp 2 (word_of_int i :: 16 word)"
      "take 8 (drop (2 + 16 * k) p) = tobytes fp 8 (gen_dt fp ! k)"
      "take 8 (drop (2 + 16 * k + 8) p) = tobytes fp 8 (gen_y fp i ! k)"
    using frame_from_arrays_layout [OF len k, of fp i] by blast
  have "u16_of_bytes fp (take 2 p) = nat i"
    using u16_roundtrip [OF assms(1,2)] by (simp only: p(3))
  moreover have "gen_frame fp i = Inr p"
    using p(1) by (simp add: gen_frame_def)
  moreover have "length p = 2 + 1000 * 16"
    using p(2) by simp
  ultimately show ?thesis
    using p(3,4,5) by simp
qed

theorem gen_frame_layout_witness:
  "\<exists>p. gen_frame test_fp 258 = Inr p \<and>
      length p = 2 + 1000 * 16 \<and>
      take 2 p = [2, 1] \<and>
      u16_of_bytes test_fp (take 2 p) = 258 \<and>
      take 8 (drop (2 + 16 * 5) p) = tobytes test_fp 8 (gen_dt test_fp ! 5) \<and>
      take 8 (drop (2 + 16 * 5 + 8) p) = tobytes test_fp 8 (gen_y test_fp 258 ! 5)"
proof -
  have h1: "(0::int) \<le> 258" and h2: "(258::int) < 65536" and h3: "(5::nat) < 1000"
    by simp_all
  have two: "[0..<2] = [0, 1]"
    by (simp add: upt_conv_Cons)
  have enc: "tobytes test_fp 2 (word_of_int 258 :: 16 word) = [2, 1]"
    by (simp add: tobytes_def le_bytes_def two test_fp_def drop_bit_eq_div)
  show ?thesis
    using gen_frame_layout [OF h1 h2 h3, of test_fp] by (simp only: enc) auto
qed

end
